theory Spec2Isabelle
  imports Main "HOL-Library.Sublist"
begin

section \<open>Python primitives used by research.py\<close>

text \<open>
  A Python \<open>str\<close> is a sequence of code points. The model keeps the code points below
  256, one \<open>char\<close> each, so \<open>length\<close> is Python's \<open>len\<close>. On that range
  \<open>str.isspace\<close>, the regular expression class \<open>\s\<close> and the separators of
  \<open>str.split()\<close> and \<open>str.strip()\<close> all agree: TAB..CR, FS..US, SPACE, NEL and NBSP.
\<close>

definition py_isspace :: "char \<Rightarrow> bool" where
  "py_isspace c =
     (let n = (of_char c :: nat)
      in (9 \<le> n \<and> n \<le> 13) \<or> (28 \<le> n \<and> n \<le> 32) \<or> n = 133 \<or> n = 160)"

text \<open>\<open>str.lower()\<close>, character by character: A..Z and the Latin-1 capitals move up by 32.\<close>

definition py_lower_char :: "char \<Rightarrow> char" where
  "py_lower_char c =
     (let n = (of_char c :: nat)
      in if (65 \<le> n \<and> n \<le> 90) \<or> (192 \<le> n \<and> n \<le> 214) \<or> (216 \<le> n \<and> n \<le> 222)
         then char_of (n + 32) else c)"

definition py_lower :: "string \<Rightarrow> string" where
  "py_lower s = map py_lower_char s"

text \<open>\<open>str.strip()\<close>: leading and trailing whitespace removed.\<close>

definition py_strip :: "string \<Rightarrow> string" where
  "py_strip s = rev (dropWhile py_isspace (rev (dropWhile py_isspace s)))"

text \<open>
  \<open>str.split()\<close> with no argument: the maximal runs of non-whitespace characters, in
  order; no empty word. The first argument is the word being read.
\<close>

fun split_from :: "string \<Rightarrow> string \<Rightarrow> string list" where
  "split_from cur [] = (if cur = [] then [] else [cur])"
| "split_from cur (c # cs) =
     (if py_isspace c
      then (if cur = [] then split_from [] cs else cur # split_from [] cs)
      else split_from (cur @ [c]) cs)"

definition py_split :: "string \<Rightarrow> string list" where
  "py_split s = split_from [] s"

text \<open>
  A slice \<open>xs[lo:hi]\<close> with Python's rules: a negative bound counts from the end, and
  every bound is clamped to the sequence. \<open>xs[:hi]\<close> is \<open>py_slice xs 0 hi\<close>.
\<close>

definition slice_bound :: "nat \<Rightarrow> int \<Rightarrow> nat" where
  "slice_bound n i = (if i < 0 then nat (max (i + int n) 0) else min (nat i) n)"

definition py_slice :: "'a list \<Rightarrow> int \<Rightarrow> int \<Rightarrow> 'a list" where
  "py_slice xs lo hi =
     (let l = slice_bound (length xs) lo; h = slice_bound (length xs) hi
      in take (h - l) (drop l xs))"

text \<open>
  \<open>re.sub(r"\s+", " ", s)\<close>: every maximal run of whitespace becomes one space. The
  flag says whether the previous character belonged to a run already replaced.
\<close>

fun collapse_from :: "bool \<Rightarrow> string \<Rightarrow> string" where
  "collapse_from in_run [] = []"
| "collapse_from in_run (c # cs) =
     (if py_isspace c
      then (if in_run then collapse_from True cs else CHR '' '' # collapse_from True cs)
      else c # collapse_from False cs)"

definition collapse_whitespace :: "string \<Rightarrow> string" where
  "collapse_whitespace s = collapse_from False s"

text \<open>
  \<open>re.sub(r"<[^>]+>", " ", raw)\<close>: scanning from the left, a \<open><\<close> followed by at least
  one character other than \<open>>\<close> and then a \<open>>\<close> is replaced, up to that first \<open>>\<close>, by
  a space; any other character is copied.
\<close>

function strip_tags :: "string \<Rightarrow> string" where
  "strip_tags [] = []"
| "strip_tags (c # cs) =
     (let body = takeWhile (\<lambda>x. x \<noteq> CHR ''>'') cs;
          rest = dropWhile (\<lambda>x. x \<noteq> CHR ''>'') cs
      in if c = CHR ''<'' \<and> body \<noteq> [] \<and> rest \<noteq> []
         then CHR '' '' # strip_tags (tl rest)
         else c # strip_tags cs)"
  by pat_completeness auto
termination
  by (relation "measure length")
     (auto simp: less_Suc_eq_le intro!: le_trans [OF diff_le_self length_dropWhile_le])

text \<open>\<open>"\n\n".join(pieces)\<close>.\<close>

fun join_nn :: "string list \<Rightarrow> string" where
  "join_nn [] = []"
| "join_nn [p] = p"
| "join_nn (p # q # ps) = p @ [CHR 0x0A, CHR 0x0A] @ join_nn (q # ps)"

text \<open>
  \<open>max(xs, key=f)\<close> on a list with first element \<open>best\<close>: a later element replaces the
  current best only when its key is strictly larger, so the first maximum is returned.
\<close>

fun max_from :: "('a \<Rightarrow> nat) \<Rightarrow> 'a \<Rightarrow> 'a list \<Rightarrow> 'a" where
  "max_from f best [] = best"
| "max_from f best (x # xs) = max_from f (if f best < f x then x else best) xs"

section \<open>extract_content\<close>

text \<open>
  \<open>trafilatura.extract\<close> is a third-party library call. It is a parameter of the
  model: given the raw text it raises (\<open>Inl\<close>) or returns \<open>None\<close> or a string.
  research.py catches no exception, so one raised there leaves \<open>extract_content\<close>.
\<close>

datatype py_exception = Raised string



definition tag_strip_fallback :: "string \<Rightarrow> string" where
  "tag_strip_fallback raw = py_strip (collapse_whitespace (strip_tags raw))"

definition extract_content ::
  "(string \<Rightarrow> py_exception + string option) \<Rightarrow> string \<Rightarrow> py_exception + string" where
  "extract_content trafilatura_extract raw =
     (if raw = [] \<or> py_strip raw = [] then Inr []
      else (case trafilatura_extract raw of
              Inl e \<Rightarrow> Inl e
            | Inr extracted \<Rightarrow>
                (case extracted of
                   None \<Rightarrow> Inr (tag_strip_fallback raw)
                 | Some ex \<Rightarrow>
                     if ex \<noteq> [] \<and> py_strip ex \<noteq> [] then Inr (py_strip ex)
                     else Inr (tag_strip_fallback raw))))"

section \<open>truncate_with_relevance\<close>

text \<open>
  The \<open>while start < len(text)\<close> loop. \<open>max_chars\<close> is a Python int: for a value below 1
  the stride \<open>chunk_size - overlap\<close> is not positive, and \<open>start\<close> need not reach the end
  of the text. A loop that does not end is the value \<open>None\<close> here.
\<close>

partial_function (option) chunk_loop ::
  "string \<Rightarrow> int \<Rightarrow> int \<Rightarrow> int \<Rightarrow> string list \<Rightarrow> string list option" where
  "chunk_loop text chunk_size overlap start chunks =
     (if start < int (length text)
      then chunk_loop text chunk_size overlap (start + (chunk_size - overlap))
             (chunks @ [py_slice text start (start + chunk_size)])
      else Some chunks)"

declare chunk_loop.simps [code]

definition score_chunk :: "string set \<Rightarrow> string \<Rightarrow> nat" where
  "score_chunk query_words chunk =
     (let chunk_words = set (py_split (py_lower chunk))
      in card (query_words \<inter> chunk_words))"

definition truncate_with_relevance :: "string \<Rightarrow> string \<Rightarrow> int \<Rightarrow> string option" where
  "truncate_with_relevance text query max_chars =
     (if int (length text) \<le> max_chars then Some text
      else
        let query_words = set (py_split (py_lower query));
            chunk_size = max_chars;
            overlap = max_chars div 4
        in (case chunk_loop text chunk_size overlap 0 [] of
              None \<Rightarrow> None
            | Some chunks \<Rightarrow>
                (case chunks of
                   [] \<Rightarrow> Some (py_slice text 0 max_chars)
                 | c # cs \<Rightarrow>
                     Some (py_slice (max_from (score_chunk query_words) c cs) 0 max_chars))))"

section \<open>format_research_result\<close>

definition format_research_result :: "string \<Rightarrow> string \<Rightarrow> string \<Rightarrow> string" where
  "format_research_result title source content =
     ''[Source: '' @ source @ ''] '' @ title @ '': '' @ content"

section \<open>deduplicate_results\<close>

text \<open>
  A result is a \<open>dict[str, Any]\<close>: an association list from keys to values, looked up
  as \<open>dict.get\<close> does. \<open>py_str\<close> is \<open>str(v)\<close> on the values modelled.
\<close>

datatype py_value = PStr string | PInt int | PBool bool | PNone

type_synonym result = "(string \<times> py_value) list"

fun digits :: "nat \<Rightarrow> string" where
  "digits n =
     (if n < 10 then [char_of (48 + n)]
      else digits (n div 10) @ [char_of (48 + n mod 10)])"

fun py_str :: "py_value \<Rightarrow> string" where
  "py_str (PStr s) = s"
| "py_str (PInt i) = (if i < 0 then CHR ''-'' # digits (nat (- i)) else digits (nat i))"
| "py_str (PBool b) = (if b then ''True'' else ''False'')"
| "py_str PNone = ''None''"

definition dict_get :: "result \<Rightarrow> string \<Rightarrow> py_value \<Rightarrow> py_value" where
  "dict_get d k dflt = (case map_of d k of None \<Rightarrow> dflt | Some v \<Rightarrow> v)"

definition fingerprint :: "result \<Rightarrow> string" where
  "fingerprint r =
     (let content = py_str (dict_get r ''content'' (PStr ''''))
      in collapse_whitespace (py_strip (py_lower (py_slice content 0 200))))"

text \<open>The \<open>for result in results\<close> loop, with its two variables as arguments.\<close>

fun dedup_loop :: "string set \<Rightarrow> result list \<Rightarrow> result list \<Rightarrow> result list" where
  "dedup_loop seen_fingerprints unique_results [] = unique_results"
| "dedup_loop seen_fingerprints unique_results (r # rs) =
     (if fingerprint r \<notin> seen_fingerprints
      then dedup_loop (insert (fingerprint r) seen_fingerprints) (unique_results @ [r]) rs
      else dedup_loop seen_fingerprints unique_results rs)"

definition deduplicate_results :: "result list \<Rightarrow> result list" where
  "deduplicate_results results = dedup_loop {} [] results"

section \<open>budget_context\<close>

definition budget_context :: "string list \<Rightarrow> int \<Rightarrow> string" where
  "budget_context results max_total_chars =
     (if results = [] then []
      else if int (sum_list (map length results)) \<le> max_total_chars then join_nn results
      else
        let per_result_budget = max_total_chars div int (length results);
            truncated = map (\<lambda>r. py_slice r 0 per_result_budget) results
        in join_nn truncated)"

section \<open>process_search_results\<close>

text \<open>
  The result is \<open>None\<close> when the call does not return, \<open>Some (Inl e)\<close> when it raises
  and \<open>Some (Inr s)\<close> when it returns the string \<open>s\<close>.
\<close>

definition process_search_results ::
  "(string \<Rightarrow> py_exception + string option) \<Rightarrow> string \<Rightarrow> string \<Rightarrow> string
     \<Rightarrow> (py_exception + string) option" where
  "process_search_results trafilatura_extract raw_results query source_name =
     (case extract_content trafilatura_extract raw_results of
        Inl e \<Rightarrow> Some (Inl e)
      | Inr extracted \<Rightarrow>
          if extracted = [] then Some (Inr [])
          else (case truncate_with_relevance extracted query 1000 of
                  None \<Rightarrow> None
                | Some truncated \<Rightarrow>
                    Some (Inr (format_research_result query source_name truncated))))"

section \<open>The windows of the relevance truncation, as the specification describes them\<close>

text \<open>
  The windows start at \<open>0, stride, 2 * stride, ...\<close> below the end of the text, each
  \<open>max_chars\<close> characters long (the last ones shorter), with
  \<open>stride = max_chars - max_chars // 4\<close>. A window's score is the number of distinct
  lower-cased query words that are also lower-cased words of the window.
\<close>

definition stride :: "int \<Rightarrow> nat" where
  "stride max_chars = nat (max_chars - max_chars div 4)"

definition window :: "string \<Rightarrow> int \<Rightarrow> nat \<Rightarrow> string" where
  "window text max_chars k = take (nat max_chars) (drop (k * stride max_chars) text)"

definition n_windows :: "string \<Rightarrow> int \<Rightarrow> nat" where
  "n_windows text max_chars =
     (length text + stride max_chars - 1) div stride max_chars"

definition windows :: "string \<Rightarrow> int \<Rightarrow> string list" where
  "windows text max_chars = map (window text max_chars) [0..<n_windows text max_chars]"

definition overlap_score :: "string \<Rightarrow> string \<Rightarrow> nat" where
  "overlap_score query w =
     card (set (py_split (py_lower query)) \<inter> set (py_split (py_lower w)))"

text \<open>
  \<open>" ".join(words)\<close>: the reading of a fingerprint as words separated by single spaces.
\<close>

fun join_sp :: "string list \<Rightarrow> string" where
  "join_sp [] = []"
| "join_sp [w] = w"
| "join_sp (w # v # ws) = w @ CHR '' '' # join_sp (v # ws)"

section \<open>Auxiliary lemmas\<close>

lemma dropWhile_all_iff:
  "(\<forall>x\<in>set (dropWhile P xs). P x) \<longleftrightarrow> (\<forall>x\<in>set xs. P x)"
proof
  assume a: "\<forall>x\<in>set (dropWhile P xs). P x"
  have "dropWhile P xs = []"
  proof (rule ccontr)
    assume ne: "dropWhile P xs \<noteq> []"
    then have "\<not> P (hd (dropWhile P xs))" by (rule hd_dropWhile)
    moreover have "hd (dropWhile P xs) \<in> set (dropWhile P xs)" using ne by simp
    ultimately show False using a by blast
  qed
  then show "\<forall>x\<in>set xs. P x" by (simp add: dropWhile_eq_Nil_conv)
next
  assume "\<forall>x\<in>set xs. P x"
  then show "\<forall>x\<in>set (dropWhile P xs). P x" by (auto dest: set_dropWhileD)
qed

lemma py_strip_empty_iff: "py_strip s = [] \<longleftrightarrow> (\<forall>c\<in>set s. py_isspace c)"
proof -
  have "py_strip s = [] \<longleftrightarrow> dropWhile py_isspace (rev (dropWhile py_isspace s)) = []"
    unfolding py_strip_def by simp
  also have "\<dots> \<longleftrightarrow> (\<forall>c\<in>set (dropWhile py_isspace s). py_isspace c)"
    by (simp add: dropWhile_eq_Nil_conv)
  also have "\<dots> \<longleftrightarrow> (\<forall>c\<in>set s. py_isspace c)" by (rule dropWhile_all_iff)
  finally show ?thesis .
qed

lemma blank_iff: "raw = [] \<or> py_strip raw = [] \<longleftrightarrow> (\<forall>c\<in>set raw. py_isspace c)"
  unfolding py_strip_empty_iff by auto

lemma py_slice_nonneg:
  "py_slice xs (int a) (int a + int b) = take b (drop a xs)"
  unfolding py_slice_def slice_bound_def Let_def
  by (cases "a \<le> length xs") (auto simp: min_def nat_int_add)

lemma py_slice_prefix: "0 \<le> k \<Longrightarrow> py_slice xs 0 k = take (nat k) xs"
  using py_slice_nonneg [of xs 0 "nat k"] by simp

lemma stride_pos: "0 < m \<Longrightarrow> 0 < stride m"
  unfolding stride_def by simp

lemma stride_le: "0 < m \<Longrightarrow> stride m \<le> nat m"
  unfolding stride_def by simp

lemma int_stride: "0 < m \<Longrightarrow> int (stride m) = m - m div 4"
  unfolding stride_def by simp

lemma start_lt_iff:
  assumes "0 < s"
  shows "k < (L + s - 1) div s \<longleftrightarrow> k * s < (L::nat)"
proof -
  have "k < (L + s - 1) div s \<longleftrightarrow> Suc k \<le> (L + s - 1) div s" by auto
  also have "\<dots> \<longleftrightarrow> Suc k * s \<le> L + s - 1"
    using assms by (simp only: less_eq_div_iff_mult_less_eq)
  also have "\<dots> \<longleftrightarrow> k * s < L" using assms by auto
  finally show ?thesis .
qed

lemma n_windows_iff: "0 < m \<Longrightarrow> k < n_windows text m \<longleftrightarrow> k * stride m < length text"
  unfolding n_windows_def by (rule start_lt_iff) (rule stride_pos)

lemma chunk_loop_windows:
  assumes "0 < m"
  shows "chunk_loop text m (m div 4) (int (k * stride m)) acc =
           Some (acc @ map (window text m) [k..<n_windows text m])"
proof (induction "n_windows text m - k" arbitrary: k acc)
  case 0
  then have "\<not> k < n_windows text m" by simp
  then have "\<not> k * stride m < length text" using n_windows_iff [OF assms] by simp
  then have ncond: "\<not> int (k * stride m) < int (length text)" by (simp del: of_nat_mult)
  have emp: "[k..<n_windows text m] = []" using \<open>\<not> k < n_windows text m\<close> by simp
  show ?case by (subst chunk_loop.simps) (simp only: ncond if_False emp list.map append_Nil2)
next
  case (Suc d)
  then have lt: "k < n_windows text m" by simp
  then have "k * stride m < length text" using n_windows_iff [OF assms] by simp
  then have cond: "int (k * stride m) < int (length text)" by (simp del: of_nat_mult)
  have next_start: "int (k * stride m) + (m - m div 4) = int (Suc k * stride m)"
    using int_stride [OF assms] by (simp add: algebra_simps)
  have "m = int (nat m)" using assms by simp
  then have sl: "py_slice text (int (k * stride m)) (int (k * stride m) + m) = window text m k"
    unfolding window_def using py_slice_nonneg [of "text" "k * stride m" "nat m"] by simp
  have d: "d = n_windows text m - Suc k" using Suc.hyps(2) by simp
  note ih = Suc.hyps(1)
  have "chunk_loop text m (m div 4) (int (k * stride m)) acc =
        chunk_loop text m (m div 4) (int (Suc k * stride m)) (acc @ [window text m k])"
    by (subst chunk_loop.simps) (simp only: cond if_True next_start sl)
  also have "\<dots> = Some ((acc @ [window text m k]) @ map (window text m) [Suc k..<n_windows text m])"
    by (rule ih [OF d])
  also have "\<dots> = Some (acc @ map (window text m) [k..<n_windows text m])"
    using lt by (simp add: upt_conv_Cons)
  finally show ?case .
qed

lemma chunk_loop_total: "0 < m \<Longrightarrow> chunk_loop text m (m div 4) 0 [] = Some (windows text m)"
  using chunk_loop_windows [of m "text" 0 "[]"] by (simp add: windows_def)

lemma max_from_first:
  "\<exists>pre post. b # xs = pre @ [max_from f b xs] @ post \<and>
     (\<forall>y\<in>set pre. f y < f (max_from f b xs)) \<and> (\<forall>y\<in>set post. f y \<le> f (max_from f b xs))"
proof (induction xs arbitrary: b)
  case Nil
  have "[b] = [] @ [max_from f b []] @ [] \<and>
     (\<forall>y\<in>set []. f y < f (max_from f b [])) \<and> (\<forall>y\<in>set []. f y \<le> f (max_from f b []))"
    by simp
  then show ?case by (intro exI)
next
  case (Cons x xs)
  show ?case
  proof (cases "f b < f x")
    case True
    let ?r = "max_from f x xs"
    have mf: "max_from f b (x # xs) = ?r" using True by simp
    from Cons [of x] obtain pre post where
      eq: "x # xs = pre @ [?r] @ post"
      and pre: "\<forall>y\<in>set pre. f y < f ?r"
      and post: "\<forall>y\<in>set post. f y \<le> f ?r" by blast
    have "x \<in> set (pre @ [?r] @ post)" using eq by (metis list.set_intros(1))
    then have "f x \<le> f ?r" using pre post by (auto simp: less_imp_le)
    then have "f b < f ?r" using True by simp
    then have "b # x # xs = (b # pre) @ [?r] @ post \<and>
        (\<forall>y\<in>set (b # pre). f y < f ?r) \<and> (\<forall>y\<in>set post. f y \<le> f ?r)"
      using eq pre post by simp
    then show ?thesis unfolding mf by (intro exI)
  next
    case False
    let ?r = "max_from f b xs"
    have mf: "max_from f b (x # xs) = ?r" using False by simp
    from Cons [of b] obtain pre post where
      eq: "b # xs = pre @ [?r] @ post"
      and pre: "\<forall>y\<in>set pre. f y < f ?r"
      and post: "\<forall>y\<in>set post. f y \<le> f ?r" by blast
    show ?thesis
    proof (cases pre)
      case Nil
      have "b # xs = ?r # post"
        using eq unfolding Nil append_Nil append_Cons .
      then have both: "b = ?r \<and> xs = post"
        by (rule list.inject [THEN iffD1])
      have rb: "?r = b" using both by (rule conjunct1 [THEN sym])
      have px: "post = xs" using both by (rule conjunct2 [THEN sym])
      from rb px have "b # x # xs = [] @ [?r] @ (x # post) \<and>
        (\<forall>y\<in>set []. f y < f ?r) \<and> (\<forall>y\<in>set (x # post). f y \<le> f ?r)"
        using post False by simp
      then show ?thesis unfolding mf by (intro exI)
    next
      case (Cons p pre')
      then have p: "p = b" and xs: "xs = pre' @ [?r] @ post" using eq by auto
      have "f b < f ?r" using pre Cons p by simp
      then have "f x < f ?r" using False by simp
      then have "b # x # xs = (b # x # pre') @ [?r] @ post \<and>
        (\<forall>y\<in>set (b # x # pre'). f y < f ?r) \<and> (\<forall>y\<in>set post. f y \<le> f ?r)"
        using xs pre post Cons p by simp
      then show ?thesis unfolding mf by (intro exI)
    qed
  qed
qed

lemma score_chunk_overlap:
  "score_chunk (set (py_split (py_lower q))) w = overlap_score q w"
  unfolding score_chunk_def overlap_score_def Let_def ..

lemma windows_nonempty:
  assumes "0 < m" "m < int (length txt)"
  shows "windows txt m = window txt m 0 # map (window txt m) [1..<n_windows txt m]"
proof -
  have "0 * stride m < length txt" using assms by (cases "txt") simp_all
  then have "0 < n_windows txt m" using n_windows_iff [OF assms(1)] by blast
  then show ?thesis unfolding windows_def by (simp add: upt_conv_Cons)
qed

lemma truncate_short:
  "int (length txt) \<le> m \<Longrightarrow> truncate_with_relevance txt q m = Some txt"
  unfolding truncate_with_relevance_def by simp

lemma truncate_long:
  assumes "0 < m" "m < int (length txt)"
  shows "\<exists>pre r post. windows txt m = pre @ [r] @ post \<and>
           (\<forall>y\<in>set pre. overlap_score q y < overlap_score q r) \<and>
           (\<forall>y\<in>set post. overlap_score q y \<le> overlap_score q r) \<and>
           truncate_with_relevance txt q m = Some (take (nat m) r)"
proof -
  let ?c = "window txt m 0"
  let ?cs = "map (window txt m) [1..<n_windows txt m]"
  let ?f = "score_chunk (set (py_split (py_lower q)))"
  let ?r = "max_from ?f ?c ?cs"
  have w: "windows txt m = ?c # ?cs" by (rule windows_nonempty [OF assms])
  have f: "?f = overlap_score q" by (rule ext) (rule score_chunk_overlap)
  have loop: "chunk_loop txt m (m div 4) 0 [] = Some (?c # ?cs)"
    using chunk_loop_total [OF assms(1)] w by simp
  have "truncate_with_relevance txt q m = Some (py_slice ?r 0 m)"
    unfolding truncate_with_relevance_def Let_def using assms(2) loop by simp
  then have res: "truncate_with_relevance txt q m = Some (take (nat m) ?r)"
    using assms(1) by (simp add: py_slice_prefix)
  from max_from_first [of ?c ?cs ?f] obtain pre post where
    "?c # ?cs = pre @ [?r] @ post"
    "\<forall>y\<in>set pre. ?f y < ?f ?r" "\<forall>y\<in>set post. ?f y \<le> ?f ?r" by blast
  then have "windows txt m = pre @ [?r] @ post \<and>
           (\<forall>y\<in>set pre. overlap_score q y < overlap_score q ?r) \<and>
           (\<forall>y\<in>set post. overlap_score q y \<le> overlap_score q ?r) \<and>
           truncate_with_relevance txt q m = Some (take (nat m) ?r)"
    using w res unfolding f by simp
  then show ?thesis by (intro exI)
qed

lemma truncate_is_window:
  assumes "0 < m" "m < int (length txt)"
  shows "\<exists>k. truncate_with_relevance txt q m = Some (window txt m k)"
proof -
  from truncate_long [OF assms, of q] obtain pre r post where
    w: "windows txt m = pre @ [r] @ post"
    and res: "truncate_with_relevance txt q m = Some (take (nat m) r)" by blast
  have "r \<in> set (windows txt m)" unfolding w by simp
  then obtain k where "r = window txt m k" unfolding windows_def by auto
  then have "take (nat m) r = window txt m k" unfolding window_def by simp
  with res show ?thesis by auto
qed

lemma window_sublist: "\<exists>ps ss. txt = ps @ window txt m k @ ss"
proof -
  let ?a = "k * stride m"
  have "txt = take ?a txt @ drop ?a txt" by simp
  also have "drop ?a txt = take (nat m) (drop ?a txt) @ drop (nat m) (drop ?a txt)"
    by (simp only: append_take_drop_id)
  finally have "txt = take ?a txt @ window txt m k @ drop (nat m) (drop ?a txt)"
    unfolding window_def .
  then show ?thesis by (intro exI)
qed

section \<open>Claims about truncate_with_relevance\<close>

text \<open>
  C7. A text no longer than \<open>max_chars\<close> is returned unchanged, whatever the query:
  the call returns, and its value is the text itself.
\<close>

theorem truncate_identity_when_short:
  "int (length txt) \<le> max_chars \<Longrightarrow> truncate_with_relevance txt query max_chars = Some txt"
  by (rule truncate_short)

theorem truncate_identity_when_short_witness:
  "int (length ''The Tower card'') \<le> 1000 \<and>
   truncate_with_relevance ''The Tower card'' ''Tower transformation'' 1000 = Some ''The Tower card''"
  using truncate_identity_when_short [of "''The Tower card''" 1000 "''Tower transformation''"]
  by simp

text \<open>
  C1. For a positive \<open>max_chars\<close> the call returns, and the string it returns has at
  most \<open>max_chars\<close> characters, for every text and every query.
\<close>

theorem truncate_length_bound:
  assumes "0 < max_chars"
  shows "\<exists>r. truncate_with_relevance txt query max_chars = Some r \<and> int (length r) \<le> max_chars"
proof (cases "int (length txt) \<le> max_chars")
  case True
  then show ?thesis by (simp add: truncate_short)
next
  case False
  then have "max_chars < int (length txt)" by simp
  from truncate_is_window [OF assms this, of query] obtain k where
    "truncate_with_relevance txt query max_chars = Some (window txt max_chars k)" ..
  moreover have "int (length (window txt max_chars k)) \<le> max_chars"
    unfolding window_def using assms by simp
  ultimately show ?thesis by simp
qed

theorem truncate_length_bound_witness:
  "(0::int) < 4 \<and> truncate_with_relevance ''aaa bbb ccc ddd'' ''ccc'' 4 = Some ''aaa '' \<and>
   int (length ''aaa '') \<le> 4"
proof -
  have "\<exists>r. truncate_with_relevance ''aaa bbb ccc ddd'' ''ccc'' 4 = Some r \<and> int (length r) \<le> 4"
    using truncate_length_bound [of 4 "''aaa bbb ccc ddd''" "''ccc''"] by simp
  moreover have "truncate_with_relevance ''aaa bbb ccc ddd'' ''ccc'' 4 = Some ''aaa ''"
    by code_simp
  ultimately show ?thesis by simp
qed

text \<open>
  C10. For a positive \<open>max_chars\<close> the call returns a contiguous slice of the text:
  the text is some prefix, then the returned string, then some suffix.
\<close>

theorem truncate_is_contiguous_slice:
  assumes "0 < max_chars"
  shows "\<exists>r ps ss. truncate_with_relevance txt query max_chars = Some r \<and> txt = ps @ r @ ss"
proof (cases "int (length txt) \<le> max_chars")
  case True
  then have "truncate_with_relevance txt query max_chars = Some txt \<and> txt = [] @ txt @ []"
    by (simp add: truncate_short)
  then show ?thesis by (intro exI)
next
  case False
  then have "max_chars < int (length txt)" by simp
  from truncate_is_window [OF assms this, of query] obtain k where
    r: "truncate_with_relevance txt query max_chars = Some (window txt max_chars k)" ..
  from window_sublist [of "txt" max_chars k] obtain ps ss where
    "txt = ps @ window txt max_chars k @ ss" by blast
  with r have "truncate_with_relevance txt query max_chars = Some (window txt max_chars k) \<and>
     txt = ps @ window txt max_chars k @ ss" by simp
  then show ?thesis by (intro exI)
qed

theorem truncate_is_contiguous_slice_witness:
  "(0::int) < 8 \<and> truncate_with_relevance ''aaa bbb ccc ddd'' ''CCC ddd'' 8 = Some ''b ccc dd'' \<and>
   ''aaa bbb ccc ddd'' = ''aaa bb'' @ ''b ccc dd'' @ ''d''"
proof -
  have "\<exists>r ps ss. truncate_with_relevance ''aaa bbb ccc ddd'' ''CCC ddd'' 8 = Some r \<and>
          ''aaa bbb ccc ddd'' = ps @ r @ ss"
    using truncate_is_contiguous_slice [of 8 "''aaa bbb ccc ddd''" "''CCC ddd''"] by simp
  moreover have "truncate_with_relevance ''aaa bbb ccc ddd'' ''CCC ddd'' 8 = Some ''b ccc dd''"
    by code_simp
  ultimately show ?thesis by simp
qed

lemma windows_nth:
  "k < n_windows txt m \<Longrightarrow> windows txt m ! k = window txt m k"
  unfolding windows_def by simp

lemma length_windows: "length (windows txt m) = n_windows txt m"
  unfolding windows_def by simp

lemma py_slice_from_nat:
  "0 \<le> b \<Longrightarrow> py_slice xs (int a) (int a + b) = take (nat b) (drop a xs)"
  using py_slice_nonneg [of xs a "nat b"] by simp

lemma window_as_slice:
  assumes "0 < m"
  shows "window txt m k = py_slice txt (int k * (m - m div 4)) (int k * (m - m div 4) + m)"
proof -
  have e: "int k * (m - m div 4) = int (k * stride m)"
    by (simp add: int_stride [OF assms])
  have "0 \<le> m" using assms by simp
  then have "py_slice txt (int (k * stride m)) (int (k * stride m) + m) =
      take (nat m) (drop (k * stride m) txt)"
    by (rule py_slice_from_nat)
  then show ?thesis unfolding window_def e by (rule sym)
qed

lemma windows_cover:
  assumes "0 < m" "i < length txt"
  shows "\<exists>k<n_windows txt m. k * stride m \<le> i \<and> i < k * stride m + nat m"
proof -
  let ?s = "stride m"
  let ?k = "i div ?s"
  have s: "0 < ?s" by (rule stride_pos [OF assms(1)])
  have lo: "?k * ?s \<le> i" by simp
  have "i < ?k * ?s + ?s" using s by (metis div_mult_mod_eq add_less_cancel_left mod_less_divisor)
  then have hi: "i < ?k * ?s + nat m" using stride_le [OF assms(1)] by simp
  have "?k * ?s < length txt" using lo assms(2) by (rule le_less_trans)
  then have "?k < n_windows txt m" using n_windows_iff [OF assms(1)] by blast
  with lo hi show ?thesis by blast
qed

lemma first_best_index:
  assumes w: "ws = pre @ [r] @ post"
    and pre: "\<forall>y\<in>set pre. f y < f r"
    and post: "\<forall>y\<in>set post. f y \<le> (f r :: nat)"
  shows "\<exists>j<length ws. ws ! j = r \<and> (\<forall>k<length ws. f (ws ! k) \<le> f (ws ! j)) \<and>
           (\<forall>k<j. f (ws ! k) < f (ws ! j))"
proof -
  let ?j = "length pre"
  have j: "?j < length ws" unfolding w by simp
  have r: "ws ! ?j = r" unfolding w by simp
  have all: "\<forall>y\<in>set ws. f y \<le> f r" unfolding w using pre post by (auto simp: less_imp_le)
  have "\<forall>k<length ws. f (ws ! k) \<le> f r" using all by simp
  moreover have "\<forall>k<?j. f (ws ! k) < f r"
  proof (intro allI impI)
    fix k assume "k < ?j"
    then have "ws ! k = pre ! k" "pre ! k \<in> set pre" unfolding w by (simp_all add: nth_append)
    then show "f (ws ! k) < f r" using pre by simp
  qed
  ultimately show ?thesis using j r by auto
qed

text \<open>
  C3. For a positive \<open>max_chars\<close> and a text longer than it, the loop returns the
  windows \<open>text[k * stride : k * stride + max_chars]\<close> for \<open>k = 0, 1, ...\<close> while
  \<open>k * stride\<close> is below the length of the text, with
  \<open>stride = max_chars - max_chars // 4\<close>; every position of the text lies in one of
  them; and the value returned is a window whose score (the number of lower-cased,
  whitespace-separated query words that are also such words of the window) is at least
  that of every window and strictly above that of every earlier window, cut to
  \<open>max_chars\<close> characters.
\<close>

theorem truncate_selects_first_best_window:
  assumes "0 < max_chars" "max_chars < int (length txt)"
  shows "chunk_loop txt max_chars (max_chars div 4) 0 [] = Some (windows txt max_chars) \<and>
     int (stride max_chars) = max_chars - max_chars div 4 \<and>
     (\<forall>k. (k < n_windows txt max_chars) = (k * stride max_chars < length txt)) \<and>
     (\<forall>k. window txt max_chars k =
           py_slice txt (int k * (max_chars - max_chars div 4))
             (int k * (max_chars - max_chars div 4) + max_chars)) \<and>
     (\<forall>i<length txt. \<exists>k<n_windows txt max_chars.
           k * stride max_chars \<le> i \<and> i < k * stride max_chars + nat max_chars) \<and>
     (\<exists>j<n_windows txt max_chars.
        (\<forall>k<n_windows txt max_chars.
           overlap_score query (window txt max_chars k) \<le> overlap_score query (window txt max_chars j)) \<and>
        (\<forall>k<j.
           overlap_score query (window txt max_chars k) < overlap_score query (window txt max_chars j)) \<and>
        truncate_with_relevance txt query max_chars =
          Some (take (nat max_chars) (window txt max_chars j)))"
proof (intro conjI)
  show "chunk_loop txt max_chars (max_chars div 4) 0 [] = Some (windows txt max_chars)"
    by (rule chunk_loop_total [OF assms(1)])
  show "int (stride max_chars) = max_chars - max_chars div 4"
    by (rule int_stride [OF assms(1)])
  show "\<forall>k. (k < n_windows txt max_chars) = (k * stride max_chars < length txt)"
    using n_windows_iff [OF assms(1)] by blast
  show "\<forall>k. window txt max_chars k =
           py_slice txt (int k * (max_chars - max_chars div 4))
             (int k * (max_chars - max_chars div 4) + max_chars)"
    using window_as_slice [OF assms(1)] by blast
  show "\<forall>i<length txt. \<exists>k<n_windows txt max_chars.
           k * stride max_chars \<le> i \<and> i < k * stride max_chars + nat max_chars"
    using windows_cover [OF assms(1)] by blast
  let ?N = "n_windows txt max_chars"
  let ?ws = "windows txt max_chars"
  let ?f = "overlap_score query"
  from truncate_long [OF assms, of query] obtain pre r post where
    w: "?ws = pre @ [r] @ post"
    and pre: "\<forall>y\<in>set pre. ?f y < ?f r"
    and post: "\<forall>y\<in>set post. ?f y \<le> ?f r"
    and res: "truncate_with_relevance txt query max_chars = Some (take (nat max_chars) r)"
    by blast
  from first_best_index [OF w pre post] obtain j where
    j: "j < length ?ws" and r: "?ws ! j = r"
    and le: "\<forall>k<length ?ws. ?f (?ws ! k) \<le> ?f (?ws ! j)"
    and lt: "\<forall>k<j. ?f (?ws ! k) < ?f (?ws ! j)" by blast
  have jN: "j < ?N" using j by (simp add: length_windows)
  have wj: "?ws ! j = window txt max_chars j" by (rule windows_nth [OF jN])
  have a: "\<forall>k<?N. ?f (window txt max_chars k) \<le> ?f (window txt max_chars j)"
    using le wj by (simp add: length_windows windows_nth)
  have b: "\<forall>k<j. ?f (window txt max_chars k) < ?f (window txt max_chars j)"
  proof (intro allI impI)
    fix k assume kj: "k < j"
    then have "k < ?N" using jN by simp
    then have wk: "?ws ! k = window txt max_chars k" by (rule windows_nth)
    from lt kj have "?f (?ws ! k) < ?f (?ws ! j)" by blast
    then show "?f (window txt max_chars k) < ?f (window txt max_chars j)"
      unfolding wk wj .
  qed
  have c: "truncate_with_relevance txt query max_chars =
          Some (take (nat max_chars) (window txt max_chars j))"
    using res r wj by simp
  show "\<exists>j<?N.
        (\<forall>k<?N. ?f (window txt max_chars k) \<le> ?f (window txt max_chars j)) \<and>
        (\<forall>k<j. ?f (window txt max_chars k) < ?f (window txt max_chars j)) \<and>
        truncate_with_relevance txt query max_chars =
          Some (take (nat max_chars) (window txt max_chars j))"
    using jN a b c by blast
qed

theorem truncate_selects_first_best_window_witness:
  "(0::int) < 8 \<and> 8 < int (length ''aaa bbb ccc ddd'') \<and>
   chunk_loop ''aaa bbb ccc ddd'' 8 (8 div 4) 0 [] = Some (windows ''aaa bbb ccc ddd'' 8) \<and>
   windows ''aaa bbb ccc ddd'' 8 = [''aaa bbb '', ''b ccc dd'', ''ddd''] \<and>
   map (overlap_score ''CCC ddd'') (windows ''aaa bbb ccc ddd'' 8) = [0, 1, 1] \<and>
   truncate_with_relevance ''aaa bbb ccc ddd'' ''CCC ddd'' 8 = Some ''b ccc dd''"
proof -
  have "chunk_loop ''aaa bbb ccc ddd'' 8 (8 div 4) 0 [] = Some (windows ''aaa bbb ccc ddd'' 8)"
    using truncate_selects_first_best_window [of 8 "''aaa bbb ccc ddd''" "''CCC ddd''"] by simp
  moreover have "windows ''aaa bbb ccc ddd'' 8 = [''aaa bbb '', ''b ccc dd'', ''ddd'']"
    by code_simp
  moreover have "map (overlap_score ''CCC ddd'') (windows ''aaa bbb ccc ddd'' 8) = [0, 1, 1]"
    by code_simp
  moreover have "truncate_with_relevance ''aaa bbb ccc ddd'' ''CCC ddd'' 8 = Some ''b ccc dd''"
    by code_simp
  ultimately show ?thesis by simp
qed

lemma length_join_nn:
  "ps \<noteq> [] \<Longrightarrow> length (join_nn ps) = sum_list (map length ps) + 2 * (length ps - 1)"
  by (induction ps rule: join_nn.induct) simp_all

lemma sum_length_take_le:
  "sum_list (map length (map (take k) rs)) \<le> length rs * k"
  by (induction rs) auto

lemma share_times_count_le:
  assumes "0 \<le> m" "0 < n"
  shows "int (n * nat (m div int n)) \<le> m"
proof -
  have "0 \<le> m div int n" using assms by (simp add: pos_imp_zdiv_nonneg_iff)
  then have "int (n * nat (m div int n)) = int n * (m div int n)" by simp
  also have "\<dots> \<le> m"
    using pos_mod_sign [of "int n" m] mult_div_mod_eq [of "int n" m] assms(2) by linarith
  finally show ?thesis .
qed

lemma budget_context_within:
  "results \<noteq> [] \<Longrightarrow> int (sum_list (map length results)) \<le> m \<Longrightarrow>
     budget_context results m = join_nn results"
  unfolding budget_context_def by simp

lemma budget_context_over:
  "m < int (sum_list (map length results)) \<Longrightarrow>
     budget_context results m =
       join_nn (map (\<lambda>r. py_slice r 0 (m div int (length results))) results)"
  unfolding budget_context_def Let_def by (cases results) simp_all

lemma budget_slice_is_take:
  "0 \<le> m \<Longrightarrow> py_slice r 0 (m div int n) = take (nat (m div int n)) r"
  by (cases "n = 0") (simp_all add: py_slice_prefix pos_imp_zdiv_nonneg_iff)

section \<open>Claims about budget_context\<close>

text \<open>
  C2, as amended. For a positive \<open>max_total_chars\<close> the result is the join, with
  \<open>"\n\n"\<close>, of one piece per input string; the lengths of the pieces sum to at most
  \<open>max_total_chars\<close>, and the separators come on top: the returned string has at most
  \<open>max_total_chars + 2 * max(count - 1, 0)\<close> characters, two for each separator between
  \<open>count\<close> pieces.
\<close>

theorem budget_context_pieces_bound:
  assumes "0 < max_total_chars"
  shows "\<exists>pieces. budget_context results max_total_chars = join_nn pieces \<and>
           length pieces = length results \<and>
           int (sum_list (map length pieces)) \<le> max_total_chars \<and>
           int (length (budget_context results max_total_chars))
             \<le> max_total_chars + 2 * max (int (length results) - 1) 0"
proof -
  let ?m = max_total_chars
  let ?n = "length results"
  let ?k = "nat (?m div int ?n)"
  define pieces where
    "pieces = (if int (sum_list (map length results)) \<le> ?m then results else map (take ?k) results)"
  have len: "length pieces = ?n" unfolding pieces_def by simp
  have eq: "budget_context results ?m = join_nn pieces"
  proof (cases "results = []")
    case True
    then show ?thesis unfolding pieces_def budget_context_def by simp
  next
    case ne: False
    show ?thesis
    proof (cases "int (sum_list (map length results)) \<le> ?m")
      case True
      then show ?thesis unfolding pieces_def using ne by (simp add: budget_context_within)
    next
      case False
      then have over: "?m < int (sum_list (map length results))" by simp
      have "0 \<le> ?m" using assms by simp
      then have tk: "(\<lambda>r. py_slice r 0 (?m div int ?n)) = take ?k"
        by (intro ext) (rule budget_slice_is_take)
      have "budget_context results ?m = join_nn (map (take ?k) results)"
        using budget_context_over [OF over] unfolding tk .
      then show ?thesis unfolding pieces_def using False by simp
    qed
  qed
  have sum: "int (sum_list (map length pieces)) \<le> ?m"
  proof (cases "int (sum_list (map length results)) \<le> ?m")
    case True
    then show ?thesis unfolding pieces_def by simp
  next
    case False
    then have ne: "0 < ?n" using assms by (cases results) simp_all
    have "sum_list (map length (map (take ?k) results)) \<le> ?n * ?k"
      by (rule sum_length_take_le)
    then have "int (sum_list (map length (map (take ?k) results))) \<le> int (?n * ?k)"
      by (simp only: of_nat_le_iff)
    also have "\<dots> \<le> ?m" using assms ne by (intro share_times_count_le) simp_all
    finally show ?thesis unfolding pieces_def using False by simp
  qed
  have total: "int (length (join_nn pieces)) \<le> ?m + 2 * max (int ?n - 1) 0"
  proof (cases "pieces = []")
    case True
    then show ?thesis using assms by simp
  next
    case False
    then have pos: "0 < length pieces" by simp
    from False have "length (join_nn pieces) =
        sum_list (map length pieces) + 2 * (length pieces - 1)"
      by (rule length_join_nn)
    moreover have "int (length pieces - 1) = int (length pieces) - 1"
      using pos by (cases pieces) simp_all
    ultimately have "int (length (join_nn pieces)) =
        int (sum_list (map length pieces)) + 2 * (int (length pieces) - 1)"
      by (simp del: One_nat_def)
    then show ?thesis using sum len by (simp add: max_def)
  qed
  have "budget_context results ?m = join_nn pieces \<and> length pieces = ?n \<and>
        int (sum_list (map length pieces)) \<le> ?m \<and>
        int (length (budget_context results ?m)) \<le> ?m + 2 * max (int ?n - 1) 0"
    using eq len sum total by simp
  then show ?thesis by (intro exI)
qed

theorem budget_context_pieces_bound_witness:
  "(0::int) < 6 \<and>
   budget_context [''aaaa'', ''bbbb'', ''cccc''] 6 = join_nn [''aa'', ''bb'', ''cc''] \<and>
   int (sum_list (map length [''aa'', ''bb'', ''cc''])) \<le> 6 \<and>
   int (length (budget_context [''aaaa'', ''bbbb'', ''cccc''] 6))
     \<le> 6 + 2 * max (int (length [''aaaa'', ''bbbb'', ''cccc'']) - 1) 0 \<and>
   length (budget_context [''aaaa'', ''bbbb'', ''cccc''] 6) = 10"
proof -
  have "\<exists>pieces. budget_context [''aaaa'', ''bbbb'', ''cccc''] 6 = join_nn pieces \<and>
           length pieces = length [''aaaa'', ''bbbb'', ''cccc''] \<and>
           int (sum_list (map length pieces)) \<le> 6 \<and>
           int (length (budget_context [''aaaa'', ''bbbb'', ''cccc''] 6))
             \<le> 6 + 2 * max (int (length [''aaaa'', ''bbbb'', ''cccc'']) - 1) 0"
    by (rule budget_context_pieces_bound) simp
  moreover have "budget_context [''aaaa'', ''bbbb'', ''cccc''] 6 = join_nn [''aa'', ''bb'', ''cc'']"
    by code_simp
  ultimately show ?thesis by simp
qed

text \<open>
  C2, as stated, fails: two strings of two characters fit a budget of 4 and are joined
  to 6 characters, and three strings cut to 2 characters each for a budget of 6 are
  joined to 10 characters.
\<close>

theorem budget_context_exceeds_budget:
  "(0::int) < 4 \<and> \<not> int (length (budget_context [''ab'', ''cd''] 4)) \<le> 4 \<and>
   (0::int) < 6 \<and> \<not> int (length (budget_context [''aaaa'', ''bbbb'', ''cccc''] 6)) \<le> 6"
  by code_simp

text \<open>
  C6. The empty list gives the empty string. A non-empty list whose lengths sum to at
  most \<open>max_total_chars\<close> is joined unchanged with \<open>"\n\n"\<close>. When the sum exceeds
  \<open>max_total_chars\<close>, every piece \<open>r\<close> becomes \<open>r[:max_total_chars // count]\<close>, which
  for a budget that is not negative is its first \<open>max_total_chars // count\<close> characters,
  and the pieces are joined. Two strings of 1000 characters with a budget of 600 give two
  pieces of 300 characters.
\<close>

theorem budget_context_cases:
  "budget_context [] max_total_chars = [] \<and>
   (results \<noteq> [] \<and> int (sum_list (map length results)) \<le> max_total_chars \<longrightarrow>
      budget_context results max_total_chars = join_nn results) \<and>
   (max_total_chars < int (sum_list (map length results)) \<longrightarrow>
      budget_context results max_total_chars =
        join_nn (map (\<lambda>r. py_slice r 0 (max_total_chars div int (length results))) results)) \<and>
   (0 \<le> max_total_chars \<longrightarrow>
      (\<forall>r. py_slice r 0 (max_total_chars div int (length results)) =
           take (nat (max_total_chars div int (length results))) r)) \<and>
   budget_context [replicate 1000 (CHR ''a''), replicate 1000 (CHR ''b'')] 600 =
     replicate 300 (CHR ''a'') @ [CHR 0x0A, CHR 0x0A] @ replicate 300 (CHR ''b'')"
proof (intro conjI impI allI)
  show "budget_context [] max_total_chars = []" unfolding budget_context_def by simp
  show "budget_context results max_total_chars = join_nn results"
    if "results \<noteq> [] \<and> int (sum_list (map length results)) \<le> max_total_chars"
    using that by (simp add: budget_context_within)
  show "budget_context results max_total_chars =
        join_nn (map (\<lambda>r. py_slice r 0 (max_total_chars div int (length results))) results)"
    if "max_total_chars < int (sum_list (map length results))"
    using that by (rule budget_context_over)
  show "py_slice r 0 (max_total_chars div int (length results)) =
           take (nat (max_total_chars div int (length results))) r"
    if "0 \<le> max_total_chars" for r
    using that by (rule budget_slice_is_take)
  show "budget_context [replicate 1000 (CHR ''a''), replicate 1000 (CHR ''b'')] 600 =
     replicate 300 (CHR ''a'') @ [CHR 0x0A, CHR 0x0A] @ replicate 300 (CHR ''b'')"
    by (simp add: budget_context_def py_slice_def slice_bound_def)
qed

theorem budget_context_cases_witness:
  "budget_context [''Short result 1'', ''Short result 2''] 10000 =
     ''Short result 1'' @ [CHR 0x0A, CHR 0x0A] @ ''Short result 2'' \<and>
   budget_context [''aaaa'', ''bbbb'', ''cccc''] 6 =
     ''aa'' @ [CHR 0x0A, CHR 0x0A] @ ''bb'' @ [CHR 0x0A, CHR 0x0A] @ ''cc''"
proof -
  let ?short = "[''Short result 1'', ''Short result 2'']"
  let ?long = "[''aaaa'', ''bbbb'', ''cccc'']"
  note within = budget_context_cases [of 10000 ?short, THEN conjunct2, THEN conjunct1]
  note over = budget_context_cases [of 6 ?long, THEN conjunct2, THEN conjunct2, THEN conjunct1]
  have "?short \<noteq> [] \<and> int (sum_list (map length ?short)) \<le> 10000" by simp
  with within have "budget_context ?short 10000 = join_nn ?short" by (rule mp)
  then have a: "budget_context ?short 10000 =
     ''Short result 1'' @ [CHR 0x0A, CHR 0x0A] @ ''Short result 2''" by simp
  have "6 < int (sum_list (map length ?long))" by simp
  with over have "budget_context ?long 6 =
      join_nn (map (\<lambda>r. py_slice r 0 (6 div int (length ?long))) ?long)" by (rule mp)
  then have b: "budget_context ?long 6 =
     ''aa'' @ [CHR 0x0A, CHR 0x0A] @ ''bb'' @ [CHR 0x0A, CHR 0x0A] @ ''cc''"
    by (simp add: py_slice_def slice_bound_def)
  from a b show ?thesis by (rule conjI)
qed

lemma dedup_loop_acc:
  "dedup_loop seen acc rs = acc @ dedup_loop seen [] rs"
proof (induction rs arbitrary: seen acc)
  case Nil
  show ?case by simp
next
  case (Cons r rs)
  show ?case
  proof (cases "fingerprint r \<in> seen")
    case True
    then show ?thesis using Cons [of seen acc] by simp
  next
    case False
    have "dedup_loop seen acc (r # rs) = (acc @ [r]) @ dedup_loop (insert (fingerprint r) seen) [] rs"
      using False Cons [of "insert (fingerprint r) seen" "acc @ [r]"] by simp
    moreover have "dedup_loop seen [] (r # rs) = [r] @ dedup_loop (insert (fingerprint r) seen) [] rs"
      using False Cons [of "insert (fingerprint r) seen" "[r]"] by simp
    ultimately show ?thesis by simp
  qed
qed

lemma dedup_loop_Cons:
  "dedup_loop seen [] (r # rs) =
     (if fingerprint r \<in> seen then dedup_loop seen [] rs
      else r # dedup_loop (insert (fingerprint r) seen) [] rs)"
  using dedup_loop_acc [of "insert (fingerprint r) seen" "[r]" rs] by simp

lemma dedup_loop_fresh:
  "fingerprint ` set (dedup_loop seen [] rs) \<inter> seen = {} \<and>
   distinct (map fingerprint (dedup_loop seen [] rs))"
proof (induction rs arbitrary: seen)
  case Nil
  show ?case by simp
next
  case (Cons r rs)
  show ?case
  proof (cases "fingerprint r \<in> seen")
    case True
    then show ?thesis using Cons [of seen] by (simp add: dedup_loop_Cons del: dedup_loop.simps(2))
  next
    case False
    then show ?thesis using Cons [of "insert (fingerprint r) seen"]
      by (auto simp: dedup_loop_Cons simp del: dedup_loop.simps(2))
  qed
qed

lemma dedup_loop_distinct_id:
  "distinct (map fingerprint xs) \<Longrightarrow> fingerprint ` set xs \<inter> seen = {} \<Longrightarrow>
     dedup_loop seen [] xs = xs"
proof (induction xs arbitrary: seen)
  case Nil
  show ?case by simp
next
  case (Cons x xs)
  have nin: "fingerprint x \<notin> seen" using Cons.prems(2) by auto
  have "distinct (map fingerprint xs)" using Cons.prems(1) by simp
  moreover have "fingerprint ` set xs \<inter> insert (fingerprint x) seen = {}"
    using Cons.prems by auto
  ultimately have "dedup_loop (insert (fingerprint x) seen) [] xs = xs" by (rule Cons.IH)
  then show ?case using nin by (simp add: dedup_loop_Cons del: dedup_loop.simps(2))
qed

lemma dedup_loop_indices:
  "dedup_loop seen [] rs =
     map ((!) rs)
       (filter (\<lambda>i. fingerprint (rs ! i) \<notin> seen \<and>
                     (\<forall>j<i. fingerprint (rs ! j) \<noteq> fingerprint (rs ! i)))
          [0..<length rs])"
proof (induction rs arbitrary: seen)
  case Nil
  show ?case by simp
next
  case (Cons r rs)
  let ?Q = "\<lambda>i. fingerprint ((r # rs) ! i) \<notin> seen \<and>
                 (\<forall>j<i. fingerprint ((r # rs) ! j) \<noteq> fingerprint ((r # rs) ! i))"
  let ?R = "\<lambda>S i. fingerprint (rs ! i) \<notin> S \<and>
                 (\<forall>j<i. fingerprint (rs ! j) \<noteq> fingerprint (rs ! i))"
  have upt: "[0..<length (r # rs)] = 0 # map Suc [0..<length rs]"
    by (simp add: upt_conv_Cons map_Suc_upt del: upt_Suc)
  have shift: "map ((!) (r # rs)) (filter ?Q [0..<length (r # rs)]) =
      (if fingerprint r \<in> seen then [] else [r]) @
      map ((!) rs) (filter (\<lambda>i. ?Q (Suc i)) [0..<length rs])"
    unfolding upt by (simp add: filter_map comp_def)
  have QSuc: "?Q (Suc i) \<longleftrightarrow>
      fingerprint (rs ! i) \<notin> seen \<and> fingerprint r \<noteq> fingerprint (rs ! i) \<and>
      (\<forall>j<i. fingerprint (rs ! j) \<noteq> fingerprint (rs ! i))" for i
    by (simp add: All_less_Suc2)
  show ?case
  proof (cases "fingerprint r \<in> seen")
    case True
    have "?Q (Suc i) \<longleftrightarrow> ?R seen i" for i
      unfolding QSuc using True by auto
    then have "filter (\<lambda>i. ?Q (Suc i)) [0..<length rs] = filter (?R seen) [0..<length rs]"
      by simp
    then show ?thesis unfolding shift using True Cons [of seen] by (simp add: dedup_loop_Cons del: dedup_loop.simps(2))
  next
    case False
    have "?Q (Suc i) \<longleftrightarrow> ?R (insert (fingerprint r) seen) i" for i
      unfolding QSuc by auto
    then have "filter (\<lambda>i. ?Q (Suc i)) [0..<length rs] =
        filter (?R (insert (fingerprint r) seen)) [0..<length rs]"
      by simp
    then show ?thesis unfolding shift using False Cons [of "insert (fingerprint r) seen"]
      by (simp add: dedup_loop_Cons del: dedup_loop.simps(2))
  qed
qed

lemma same_key_at_most_one:
  "distinct (map f xs) \<Longrightarrow> \<forall>x\<in>set xs. P x \<longrightarrow> f x = c \<Longrightarrow> length (filter P xs) \<le> 1"
proof (induction xs)
  case Nil
  show ?case by simp
next
  case (Cons x xs)
  show ?case
  proof (cases "P x")
    case False
    then show ?thesis using Cons by simp
  next
    case True
    then have "f x = c" using Cons.prems(2) by simp
    then have "c \<notin> f ` set xs" using Cons.prems(1) by auto
    then have "\<forall>y\<in>set xs. \<not> P y" using Cons.prems(2) by (metis image_eqI list.set_intros(2))
    then have "filter P xs = []" by (simp add: filter_empty_conv)
    then show ?thesis using True by simp
  qed
qed

lemma fingerprint_unfolded:
  "fingerprint r =
     collapse_whitespace (py_strip (py_lower (take 200
       (case map_of r ''content'' of None \<Rightarrow> [] | Some v \<Rightarrow> py_str v))))"
proof -
  have "py_str (dict_get r ''content'' (PStr [])) =
      (case map_of r ''content'' of None \<Rightarrow> [] | Some v \<Rightarrow> py_str v)"
    unfolding dict_get_def by (simp split: option.split)
  then show ?thesis unfolding fingerprint_def Let_def by (simp add: py_slice_prefix)
qed

lemma fingerprint_empty_content:
  "map_of r ''content'' = None \<or> map_of r ''content'' = Some (PStr []) \<Longrightarrow> fingerprint r = []"
  unfolding fingerprint_unfolded
  by (auto simp: py_lower_def py_strip_def collapse_whitespace_def)

lemma collapse_nonspace:
  "\<not> py_isspace c \<Longrightarrow> collapse_whitespace (c # s) = c # collapse_whitespace s"
  unfolding collapse_whitespace_def by simp

lemma collapse_from_True_run:
  "\<forall>c\<in>set ws. py_isspace c \<Longrightarrow> s = [] \<or> \<not> py_isspace (hd s) \<Longrightarrow>
     collapse_from True (ws @ s) = collapse_from False s"
proof (induction ws)
  case Nil
  then show ?case by (cases s) auto
next
  case (Cons w ws)
  then show ?case by simp
qed

lemma collapse_run:
  assumes "ws \<noteq> []" "\<forall>c\<in>set ws. py_isspace c" "s = [] \<or> \<not> py_isspace (hd s)"
  shows "collapse_whitespace (ws @ s) = CHR '' '' # collapse_whitespace s"
proof -
  from assms(1) obtain w ws' where ws: "ws = w # ws'" by (cases ws) auto
  then have "py_isspace w" "\<forall>c\<in>set ws'. py_isspace c" using assms(2) by simp_all
  then show ?thesis
    unfolding collapse_whitespace_def ws
    using collapse_from_True_run [of ws' s] assms(3) by simp
qed

lemma rev_dropWhile_takeWhile:
  "rev (dropWhile P (rev xs)) @ rev (takeWhile P (rev xs)) = xs"
  by (metis rev_append rev_rev_ident takeWhile_dropWhile_id)

lemma py_strip_shape:
  "\<exists>ws1 ws2. s = ws1 @ py_strip s @ ws2 \<and>
     (\<forall>c\<in>set ws1. py_isspace c) \<and> (\<forall>c\<in>set ws2. py_isspace c)"
proof -
  let ?d = "dropWhile py_isspace s"
  let ?ws1 = "takeWhile py_isspace s"
  let ?ws2 = "rev (takeWhile py_isspace (rev ?d))"
  have d: "?d = py_strip s @ ?ws2"
    unfolding py_strip_def by (rule rev_dropWhile_takeWhile [symmetric])
  have "s = ?ws1 @ ?d" by simp
  then have "s = ?ws1 @ py_strip s @ ?ws2" using d by simp
  moreover have "\<forall>c\<in>set ?ws1. py_isspace c" by (auto dest: set_takeWhileD)
  moreover have "\<forall>c\<in>set ?ws2. py_isspace c" by (auto dest: set_takeWhileD)
  ultimately show ?thesis by blast
qed

lemma py_strip_ends:
  assumes "py_strip s \<noteq> []"
  shows "\<not> py_isspace (hd (py_strip s)) \<and> \<not> py_isspace (last (py_strip s))"
proof -
  let ?d = "dropWhile py_isspace s"
  let ?e = "dropWhile py_isspace (rev ?d)"
  have e: "?e \<noteq> []" using assms unfolding py_strip_def by simp
  then have "\<not> py_isspace (hd ?e)" by (rule hd_dropWhile)
  moreover have "last (py_strip s) = hd ?e" unfolding py_strip_def using e by (simp add: last_rev)
  ultimately have l: "\<not> py_isspace (last (py_strip s))" by simp
  have dne: "?d \<noteq> []"
  proof
    assume "?d = []"
    then have "?e = []" by (simp only: rev.simps dropWhile.simps)
    with e show False by (rule notE)
  qed
  then have hd: "\<not> py_isspace (hd ?d)" by (rule hd_dropWhile)
  have "?d = py_strip s @ rev (takeWhile py_isspace (rev ?d))"
    unfolding py_strip_def by (rule rev_dropWhile_takeWhile [symmetric])
  then have "hd ?d = hd (py_strip s)" using assms by (metis hd_append2)
  with hd l show ?thesis by simp
qed


lemma rstrip_Cons:
  "rev (dropWhile py_isspace (rev (c # s))) =
     (if py_isspace c \<and> (\<forall>x\<in>set s. py_isspace x) then []
      else c # rev (dropWhile py_isspace (rev s)))"
  by (auto simp: dropWhile_append dropWhile_eq_Nil_conv)

lemma split_from_nonempty: "cur \<noteq> [] \<Longrightarrow> split_from cur t \<noteq> []"
  by (induction t arbitrary: cur) auto

lemma join_sp_Cons:
  "join_sp (w # ws) = (if ws = [] then w else w @ CHR '' '' # join_sp ws)"
  by (cases ws) simp_all

lemma join_split_collapse:
  "(\<forall>cur. cur \<noteq> [] \<longrightarrow>
      join_sp (split_from cur t) =
        cur @ collapse_from False (rev (dropWhile py_isspace (rev t)))) \<and>
   ((split_from [] t = []) = (\<forall>x\<in>set t. py_isspace x)) \<and>
   ((\<exists>x\<in>set t. \<not> py_isspace x) \<longrightarrow>
      join_sp (split_from [] t) = collapse_from True (rev (dropWhile py_isspace (rev t))))"
proof (induction t)
  case Nil
  show ?case by simp
next
  case (Cons c t)
  let ?r = "rev (dropWhile py_isspace (rev t))"
  note ih1 = Cons.IH [THEN conjunct1, rule_format]
  note ih2 = Cons.IH [THEN conjunct2, THEN conjunct1]
  note ih3 = Cons.IH [THEN conjunct2, THEN conjunct2, rule_format]
  show ?case
  proof (cases "py_isspace c")
    case sp: True
    have a: "join_sp (split_from cur (c # t)) =
        cur @ collapse_from False (rev (dropWhile py_isspace (rev (c # t))))"
      if cur: "cur \<noteq> []" for cur
    proof (cases "\<forall>x\<in>set t. py_isspace x")
      case True
      then have "split_from [] t = []" using ih2 by simp
      then show ?thesis using sp True cur by (simp add: rstrip_Cons del: rev.simps)
    next
      case False
      then have ne: "split_from [] t \<noteq> []" using ih2 by simp
      have "join_sp (split_from [] t) = collapse_from True ?r" using False by (intro ih3) blast
      then show ?thesis using sp False cur ne
        by (simp add: rstrip_Cons join_sp_Cons del: rev.simps)
    qed
    have b: "(split_from [] (c # t) = []) = (\<forall>x\<in>set (c # t). py_isspace x)"
      using sp ih2 by simp
    have c: "join_sp (split_from [] (c # t)) =
        collapse_from True (rev (dropWhile py_isspace (rev (c # t))))"
      if "\<exists>x\<in>set (c # t). \<not> py_isspace x"
    proof -
      from that sp have ex: "\<exists>x\<in>set t. \<not> py_isspace x" by auto
      then have "join_sp (split_from [] t) = collapse_from True ?r" by (rule ih3)
      then show ?thesis using sp ex by (auto simp: rstrip_Cons simp del: rev.simps)
    qed
    from a b c show ?thesis by blast
  next
    case nsp: False
    have step: "join_sp (split_from (cur @ [c]) t) = (cur @ [c]) @ collapse_from False ?r" for cur
      by (rule ih1) simp
    have a: "join_sp (split_from cur (c # t)) =
        cur @ collapse_from False (rev (dropWhile py_isspace (rev (c # t))))" for cur
      using nsp step [of cur] by (simp add: rstrip_Cons del: rev.simps)
    have b: "(split_from [] (c # t) = []) = (\<forall>x\<in>set (c # t). py_isspace x)"
      using nsp split_from_nonempty [of "[c]" t] by simp
    have c: "join_sp (split_from [] (c # t)) =
        collapse_from True (rev (dropWhile py_isspace (rev (c # t))))"
      using nsp step [of "[]"] by (simp add: rstrip_Cons del: rev.simps)
    from a b c show ?thesis by blast
  qed
qed

lemma split_from_skip_leading:
  "split_from [] s = split_from [] (dropWhile py_isspace s)"
  by (induction s) simp_all

lemma collapse_strip_is_join_split:
  "collapse_whitespace (py_strip s) = join_sp (py_split s)"
proof (cases "\<forall>x\<in>set s. py_isspace x")
  case True
  then have "py_strip s = []" by (simp add: py_strip_empty_iff)
  moreover have "split_from [] s = []"
    using True join_split_collapse [of s, THEN conjunct2, THEN conjunct1] by simp
  ultimately show ?thesis unfolding collapse_whitespace_def py_split_def by simp
next
  case False
  let ?d = "dropWhile py_isspace s"
  from False have dne: "?d \<noteq> []" by (simp add: dropWhile_eq_Nil_conv)
  then obtain c t where d: "?d = c # t" by (cases ?d) auto
  have nsp: "\<not> py_isspace c" using hd_dropWhile [OF dne] d by simp
  have "join_sp (split_from [] s) = join_sp (split_from [] (c # t))"
    using split_from_skip_leading [of s] d by simp
  also have "\<dots> = join_sp (split_from [c] t)" using nsp by simp
  also have "\<dots> = [c] @ collapse_from False (rev (dropWhile py_isspace (rev t)))"
    using join_split_collapse [of t, THEN conjunct1, rule_format, of "[c]"] by simp
  also have "\<dots> = collapse_from False (rev (dropWhile py_isspace (rev (c # t))))"
    using nsp by (simp add: rstrip_Cons del: rev.simps)
  also have "\<dots> = collapse_whitespace (py_strip s)"
    unfolding collapse_whitespace_def py_strip_def d ..
  finally show ?thesis unfolding py_split_def by simp
qed

section \<open>Claims about deduplicate_results\<close>

text \<open>
  C4. The result lists, in their order, exactly the records whose fingerprint differs
  from the fingerprint of every earlier record. The fingerprint is the first 200
  characters of the content (the empty string when the key is absent), lower-cased,
  stripped, with every run of whitespace collapsed to one space:
  \<^item> stripping removes a whitespace prefix and a whitespace suffix and leaves a string
    that neither starts nor ends with whitespace;
  \<^item> collapsing copies a character that is not whitespace and turns a maximal run
    of whitespace into one space;
  \<^item> so the fingerprint is the words of the lower-cased first 200 characters, joined
    by single spaces.
  A record with absent or empty content has the empty fingerprint, so at most one such
  record is in the result.
\<close>

theorem deduplicate_keeps_first_occurrences:
  "deduplicate_results results =
     map ((!) results)
       (filter (\<lambda>i. \<forall>j<i. fingerprint (results ! j) \<noteq> fingerprint (results ! i))
          [0..<length results]) \<and>
   (\<forall>r. fingerprint r =
      collapse_whitespace (py_strip (py_lower (take 200
        (case map_of r ''content'' of None \<Rightarrow> [] | Some v \<Rightarrow> py_str v))))) \<and>
   (\<forall>s. \<exists>ws1 ws2. s = ws1 @ py_strip s @ ws2 \<and>
      (\<forall>c\<in>set ws1. py_isspace c) \<and> (\<forall>c\<in>set ws2. py_isspace c)) \<and>
   (\<forall>s. py_strip s \<noteq> [] \<longrightarrow>
      \<not> py_isspace (hd (py_strip s)) \<and> \<not> py_isspace (last (py_strip s))) \<and>
   collapse_whitespace [] = [] \<and>
   (\<forall>c s. \<not> py_isspace c \<longrightarrow> collapse_whitespace (c # s) = c # collapse_whitespace s) \<and>
   (\<forall>ws s. ws \<noteq> [] \<and> (\<forall>c\<in>set ws. py_isspace c) \<and> (s = [] \<or> \<not> py_isspace (hd s)) \<longrightarrow>
      collapse_whitespace (ws @ s) = CHR '' '' # collapse_whitespace s) \<and>
   (\<forall>r. fingerprint r =
      join_sp (py_split (py_lower (take 200
        (case map_of r ''content'' of None \<Rightarrow> [] | Some v \<Rightarrow> py_str v))))) \<and>
   (\<forall>r. map_of r ''content'' = None \<or> map_of r ''content'' = Some (PStr []) \<longrightarrow>
      fingerprint r = []) \<and>
   length (filter (\<lambda>r. map_of r ''content'' = None \<or> map_of r ''content'' = Some (PStr []))
             (deduplicate_results results)) \<le> 1"
proof (intro conjI allI impI)
  show "deduplicate_results results =
     map ((!) results)
       (filter (\<lambda>i. \<forall>j<i. fingerprint (results ! j) \<noteq> fingerprint (results ! i))
          [0..<length results])"
    unfolding deduplicate_results_def using dedup_loop_indices [of "{}" results] by simp
  show "fingerprint r =
      collapse_whitespace (py_strip (py_lower (take 200
        (case map_of r ''content'' of None \<Rightarrow> [] | Some v \<Rightarrow> py_str v))))" for r
    by (rule fingerprint_unfolded)
  show "\<exists>ws1 ws2. s = ws1 @ py_strip s @ ws2 \<and>
      (\<forall>c\<in>set ws1. py_isspace c) \<and> (\<forall>c\<in>set ws2. py_isspace c)" for s
    by (rule py_strip_shape)
  show "\<not> py_isspace (hd (py_strip s))" if "py_strip s \<noteq> []" for s
    using py_strip_ends [OF that] by (rule conjunct1)
  show "\<not> py_isspace (last (py_strip s))" if "py_strip s \<noteq> []" for s
    using py_strip_ends [OF that] by (rule conjunct2)
  show "collapse_whitespace [] = []" unfolding collapse_whitespace_def by simp
  show "collapse_whitespace (c # s) = c # collapse_whitespace s" if "\<not> py_isspace c" for c s
    using that by (rule collapse_nonspace)
  show "collapse_whitespace (ws @ s) = CHR '' '' # collapse_whitespace s"
    if "ws \<noteq> [] \<and> (\<forall>c\<in>set ws. py_isspace c) \<and> (s = [] \<or> \<not> py_isspace (hd s))" for ws s
    using that collapse_run [of ws s] by blast
  show "fingerprint r =
      join_sp (py_split (py_lower (take 200
        (case map_of r ''content'' of None \<Rightarrow> [] | Some v \<Rightarrow> py_str v))))" for r
    unfolding fingerprint_unfolded by (rule collapse_strip_is_join_split)
  show "fingerprint r = []"
    if "map_of r ''content'' = None \<or> map_of r ''content'' = Some (PStr [])" for r
    using that by (rule fingerprint_empty_content)
  have "distinct (map fingerprint (deduplicate_results results))"
    unfolding deduplicate_results_def using dedup_loop_fresh [of "{}" results] by simp
  moreover have "\<forall>r\<in>set (deduplicate_results results).
      (map_of r ''content'' = None \<or> map_of r ''content'' = Some (PStr [])) \<longrightarrow> fingerprint r = []"
    using fingerprint_empty_content by blast
  ultimately show "length (filter (\<lambda>r. map_of r ''content'' = None \<or> map_of r ''content'' = Some (PStr []))
             (deduplicate_results results)) \<le> 1"
    by (rule same_key_at_most_one)
qed

theorem deduplicate_keeps_first_occurrences_witness:
  "deduplicate_results
     [[(''content'', PStr (''The  Tower'' @ [CHR 0x09, CHR 0x0A] @ ''card'')), (''id'', PInt 1)],
      [(''content'', PStr '' the tower CARD  ''), (''id'', PInt 2)],
      [(''id'', PInt 3)],
      [(''content'', PStr ''xyz'')],
      [(''content'', PStr [])],
      [(''content'', PStr (replicate 200 (CHR ''a'') @ ''x''))],
      [(''content'', PStr (replicate 200 (CHR ''a'') @ ''y''))],
      [(''content'', PStr (replicate 199 (CHR ''a'') @ ''y''))]] =
     [[(''content'', PStr (''The  Tower'' @ [CHR 0x09, CHR 0x0A] @ ''card'')), (''id'', PInt 1)],
      [(''id'', PInt 3)],
      [(''content'', PStr ''xyz'')],
      [(''content'', PStr (replicate 200 (CHR ''a'') @ ''x''))],
      [(''content'', PStr (replicate 199 (CHR ''a'') @ ''y''))]] \<and>
   fingerprint [(''content'', PStr (''  The  Tower'' @ [CHR 0x09, CHR 0x0A] @ ''card ''))] =
     ''the tower card'' \<and>
   fingerprint [(''content'', PStr '' the tower CARD  ''), (''id'', PInt 2)] = ''the tower card''"
proof -
  let ?rs = "[[(''content'', PStr (''The  Tower'' @ [CHR 0x09, CHR 0x0A] @ ''card'')), (''id'', PInt 1)],
      [(''content'', PStr '' the tower CARD  ''), (''id'', PInt 2)],
      [(''id'', PInt 3)],
      [(''content'', PStr ''xyz'')],
      [(''content'', PStr [])],
      [(''content'', PStr (replicate 200 (CHR ''a'') @ ''x''))],
      [(''content'', PStr (replicate 200 (CHR ''a'') @ ''y''))],
      [(''content'', PStr (replicate 199 (CHR ''a'') @ ''y''))]]"
  have a: "deduplicate_results ?rs =
     [[(''content'', PStr (''The  Tower'' @ [CHR 0x09, CHR 0x0A] @ ''card'')), (''id'', PInt 1)],
      [(''id'', PInt 3)],
      [(''content'', PStr ''xyz'')],
      [(''content'', PStr (replicate 200 (CHR ''a'') @ ''x''))],
      [(''content'', PStr (replicate 199 (CHR ''a'') @ ''y''))]]"
    by code_simp
  note words = deduplicate_keeps_first_occurrences [of "[]", THEN conjunct2, THEN conjunct2,
      THEN conjunct2, THEN conjunct2, THEN conjunct2, THEN conjunct2, THEN conjunct2,
      THEN conjunct1, THEN spec]
  have "fingerprint [(''content'', PStr (''  The  Tower'' @ [CHR 0x09, CHR 0x0A] @ ''card ''))] =
      join_sp (py_split (py_lower (take 200
        (case map_of [(''content'', PStr (''  The  Tower'' @ [CHR 0x09, CHR 0x0A] @ ''card ''))] ''content''
         of None \<Rightarrow> [] | Some v \<Rightarrow> py_str v))))"
    by (rule words)
  also have "\<dots> = ''the tower card''" by code_simp
  finally have b: "fingerprint [(''content'', PStr (''  The  Tower'' @ [CHR 0x09, CHR 0x0A] @ ''card ''))] =
     ''the tower card''" .
  have c: "fingerprint [(''content'', PStr '' the tower CARD  ''), (''id'', PInt 2)] = ''the tower card''"
    by code_simp
  from a b c show ?thesis by (intro conjI)
qed

text \<open>
  C5. Deduplicating a deduplicated list changes nothing.
\<close>

theorem deduplicate_idempotent:
  "deduplicate_results (deduplicate_results results) = deduplicate_results results"
proof -
  have "distinct (map fingerprint (dedup_loop {} [] results))"
    using dedup_loop_fresh [of "{}" results] by simp
  then have "dedup_loop {} [] (dedup_loop {} [] results) = dedup_loop {} [] results"
    by (rule dedup_loop_distinct_id) simp
  then show ?thesis unfolding deduplicate_results_def .
qed

theorem deduplicate_idempotent_witness:
  "deduplicate_results (deduplicate_results
     [[(''content'', PStr ''abc'')], [(''content'', PStr ''abc'')], [(''content'', PStr ''xyz'')]]) =
   [[(''content'', PStr ''abc'')], [(''content'', PStr ''xyz'')]]"
proof -
  let ?rs = "[[(''content'', PStr ''abc'')], [(''content'', PStr ''abc'')], [(''content'', PStr ''xyz'')]]"
  have "deduplicate_results (deduplicate_results ?rs) = deduplicate_results ?rs"
    by (rule deduplicate_idempotent)
  also have "\<dots> = [[(''content'', PStr ''abc'')], [(''content'', PStr ''xyz'')]]"
    by code_simp
  finally show ?thesis .
qed

lemma extract_content_blank:
  "\<forall>c\<in>set raw. py_isspace c \<Longrightarrow> extract_content tex raw = Inr []"
  unfolding extract_content_def using blank_iff [of raw] by simp




section \<open>Claims about extract_content and process_search_results\<close>




lemma truncate_returns:
  assumes "0 < m"
  shows "\<exists>t. truncate_with_relevance txt q m = Some t"
proof (cases "int (length txt) \<le> m")
  case True
  then show ?thesis by (simp add: truncate_short)
next
  case False
  then have "m < int (length txt)" by simp
  from truncate_is_window [OF assms this, of q] show ?thesis by blast
qed

lemma format_research_result_nonempty: "format_research_result title source content \<noteq> []"
  unfolding format_research_result_def by simp

lemma process_empty_extract:
  "extract_content tex raw = Inr [] \<Longrightarrow>
     process_search_results tex raw q s = Some (Inr [])"
  unfolding process_search_results_def by simp

lemma process_nonempty_extract:
  assumes "extract_content tex raw = Inr extracted" "extracted \<noteq> []"
  shows "\<exists>truncated. truncate_with_relevance extracted q 1000 = Some truncated \<and>
           process_search_results tex raw q s =
             Some (Inr (format_research_result q s truncated))"
proof -
  from truncate_returns [of 1000 extracted q] obtain t where
    t: "truncate_with_relevance extracted q 1000 = Some t" by auto
  then have "process_search_results tex raw q s = Some (Inr (format_research_result q s t))"
    unfolding process_search_results_def using assms by simp
  with t show ?thesis by blast
qed

text \<open>
  C9. When \<open>extract_content\<close> returns the string \<open>extracted\<close>, the result is the empty
  string exactly when \<open>extracted\<close> is empty; otherwise the truncation to 1000 characters
  returns some \<open>truncated\<close> and the result is
  \<open>format_research_result query source_name truncated\<close>, which is the string
  \<open>"[Source: {source_name}] {query}: {truncated}"\<close>. The empty raw input gives the empty
  string.
\<close>

theorem process_search_results_composition:
  assumes "extract_content tex raw = Inr extracted"
  shows "(process_search_results tex raw query source_name = Some (Inr []) \<longleftrightarrow> extracted = []) \<and>
     (extracted \<noteq> [] \<longrightarrow>
        (\<exists>truncated. truncate_with_relevance extracted query 1000 = Some truncated \<and>
           process_search_results tex raw query source_name =
             Some (Inr (format_research_result query source_name truncated)) \<and>
           format_research_result query source_name truncated =
             ''[Source: '' @ source_name @ ''] '' @ query @ '': '' @ truncated)) \<and>
     process_search_results tex [] ''query'' ''source'' = Some (Inr [])"
proof (intro conjI impI)
  show "process_search_results tex raw query source_name = Some (Inr []) \<longleftrightarrow> extracted = []"
  proof (cases "extracted = []")
    case True
    then show ?thesis using assms by (simp add: process_empty_extract)
  next
    case False
    from process_nonempty_extract [OF assms False, of query source_name] obtain t where
      "process_search_results tex raw query source_name =
         Some (Inr (format_research_result query source_name t))" by blast
    then show ?thesis using False by (simp add: format_research_result_nonempty)
  qed
  show "\<exists>truncated. truncate_with_relevance extracted query 1000 = Some truncated \<and>
           process_search_results tex raw query source_name =
             Some (Inr (format_research_result query source_name truncated)) \<and>
           format_research_result query source_name truncated =
             ''[Source: '' @ source_name @ ''] '' @ query @ '': '' @ truncated"
    if "extracted \<noteq> []"
    using process_nonempty_extract [OF assms that, of query source_name]
    unfolding format_research_result_def by blast
  have "extract_content tex [] = Inr []" by (simp add: extract_content_blank)
  then show "process_search_results tex [] ''query'' ''source'' = Some (Inr [])"
    by (rule process_empty_extract)
qed

theorem process_search_results_composition_witness:
  "extract_content (\<lambda>_. Inr None) ''<p>The Tower</p>'' = Inr ''The Tower'' \<and>
   truncate_with_relevance ''The Tower'' ''Tower tarot'' 1000 = Some ''The Tower'' \<and>
   process_search_results (\<lambda>_. Inr None) ''<p>The Tower</p>'' ''Tower tarot'' ''duckduckgo'' =
     Some (Inr ''[Source: duckduckgo] Tower tarot: The Tower'') \<and>
   process_search_results (\<lambda>_. Inr None) [] ''query'' ''source'' = Some (Inr [])"
proof -
  let ?tex = "\<lambda>_::string. (Inr None :: py_exception + string option)"
  have e: "extract_content ?tex ''<p>The Tower</p>'' = Inr ''The Tower''" by code_simp
  have t: "truncate_with_relevance ''The Tower'' ''Tower tarot'' 1000 = Some ''The Tower''"
    by code_simp
  note comp = process_search_results_composition [OF e, of "''Tower tarot''" "''duckduckgo''"]
  have ne: "''The Tower'' \<noteq> []" by simp
  from comp [THEN conjunct2, THEN conjunct1] ne
  have "\<exists>truncated. truncate_with_relevance ''The Tower'' ''Tower tarot'' 1000 = Some truncated \<and>
           process_search_results ?tex ''<p>The Tower</p>'' ''Tower tarot'' ''duckduckgo'' =
             Some (Inr (format_research_result ''Tower tarot'' ''duckduckgo'' truncated)) \<and>
           format_research_result ''Tower tarot'' ''duckduckgo'' truncated =
             ''[Source: '' @ ''duckduckgo'' @ ''] '' @ ''Tower tarot'' @ '': '' @ truncated"
    by (rule mp)
  then have p: "process_search_results ?tex ''<p>The Tower</p>'' ''Tower tarot'' ''duckduckgo'' =
     Some (Inr ''[Source: duckduckgo] Tower tarot: The Tower'')"
    unfolding t by auto
  have q: "process_search_results ?tex [] ''query'' ''source'' = Some (Inr [])"
    by (rule comp [THEN conjunct2, THEN conjunct2])
  from e t p q show ?thesis by (intro conjI)
qed

end
